theory Spec2Isabelle
  imports Complex_Main "HOL-Library.AList"
begin

section \<open>Token pool manager (class TokenManager)\<close>

text \<open>
  The exceptions the modelled code can raise. \<open>ValueError\<close> is raised by the client
  itself; the others come from indexing and attribute access on Python values.
\<close>

datatype error =
  ValueError | IndexError | KeyError | AttributeError | TypeError | UnicodeDecodeError

text \<open>
  One entry of the token file: \<open>{"token": str, "exhausted": bool}\<close>, where the key
  \<open>exhausted\<close> may be missing (\<open>None\<close> here) and is read with
  \<open>token_info.get("exhausted", False)\<close>.
\<close>

record token_info =
  token :: string
  exhausted :: "bool option"

definition is_exhausted :: "token_info \<Rightarrow> bool" where
  "is_exhausted e = (case exhausted e of None \<Rightarrow> False | Some b \<Rightarrow> b)"

record TokenManager =
  token_file :: string
  tokens :: "token_info list"
  current_token_index :: nat

text \<open>
  \<open>load_tokens\<close> reads the file named by \<open>token_file\<close>. The file system is a parameter:
  \<open>fs path\<close> is the list \<open>json.load\<close> returns, or \<open>None\<close> when opening or parsing
  raises, in which case the pool becomes empty. The cursor is not touched.
\<close>

definition load_tokens :: "(string \<Rightarrow> token_info list option) \<Rightarrow> TokenManager \<Rightarrow> TokenManager" where
  "load_tokens fs m =
     (case fs (token_file m) of
        Some ts \<Rightarrow> m\<lparr>tokens := ts\<rparr>
      | None \<Rightarrow> m\<lparr>tokens := []\<rparr>)"

definition TokenManager_init :: "(string \<Rightarrow> token_info list option) \<Rightarrow> string \<Rightarrow> TokenManager" where
  "TokenManager_init fs path =
     load_tokens fs \<lparr>token_file = path, tokens = [], current_token_index = 0\<rparr>"

text \<open>
  The \<open>while True\<close> loop of \<open>get_next_token\<close>. The result is the outcome (an exception or
  the returned \<open>Optional[str]\<close>), the manager after the call, and the number of entries
  read by \<open>self.tokens[self.current_token_index]\<close>; that count is bookkeeping of the model,
  not program state. A loop that never returns has the value \<open>None\<close>.
\<close>

partial_function (option) get_next_token_loop ::
  "nat \<Rightarrow> TokenManager \<Rightarrow> nat \<Rightarrow> ((error + string option) \<times> TokenManager \<times> nat) option" where
  "get_next_token_loop start_index m probes =
     (if length (tokens m) \<le> current_token_index m then Some (Inl IndexError, m, probes)
      else if \<not> is_exhausted (tokens m ! current_token_index m)
        then Some (Inr (Some (token (tokens m ! current_token_index m))), m, probes + 1)
      else if (current_token_index m + 1) mod length (tokens m) = start_index
        then Some (Inr None,
                   m\<lparr>current_token_index := (current_token_index m + 1) mod length (tokens m)\<rparr>,
                   probes + 1)
      else get_next_token_loop start_index
             (m\<lparr>current_token_index := (current_token_index m + 1) mod length (tokens m)\<rparr>)
             (probes + 1))"

definition get_next_token ::
  "TokenManager \<Rightarrow> ((error + string option) \<times> TokenManager \<times> nat) option" where
  "get_next_token m =
     (if tokens m = [] then Some (Inr None, m, 0)
      else get_next_token_loop (current_token_index m) m 0)"

text \<open>
  \<open>mark_token_exhausted\<close>: the \<open>for i, token_info in enumerate(self.tokens)\<close> loop with its
  \<open>break\<close>. The argument is what the caller passes, \<open>self.api_key\<close>, which can be \<open>None\<close>;
  \<open>None\<close> equals no token string.
\<close>

function mark_token_exhausted_loop :: "string option \<Rightarrow> nat \<Rightarrow> TokenManager \<Rightarrow> TokenManager" where
  "mark_token_exhausted_loop t i m =
     (if length (tokens m) \<le> i then m
      else if Some (token (tokens m ! i)) = t
        then m\<lparr>tokens := (tokens m)[i := (tokens m ! i)\<lparr>exhausted := Some True\<rparr>],
               current_token_index := (i + 1) mod length (tokens m)\<rparr>
      else mark_token_exhausted_loop t (i + 1) m)"
  by pat_completeness auto
termination
  by (relation "measure (\<lambda>(t, i, m). length (tokens m) - i)") auto

definition mark_token_exhausted :: "string option \<Rightarrow> TokenManager \<Rightarrow> TokenManager" where
  "mark_token_exhausted t m = mark_token_exhausted_loop t 0 m"

definition reset_exhausted_status :: "TokenManager \<Rightarrow> TokenManager" where
  "reset_exhausted_status m = m\<lparr>tokens := map (\<lambda>e. e\<lparr>exhausted := Some False\<rparr>) (tokens m)\<rparr>"

section \<open>Sequences of pool operations\<close>

text \<open>
  The four public operations of \<open>TokenManager\<close> as commands, to speak about every
  sequence of calls. \<open>Load fs\<close> is a call of \<open>load_tokens\<close> at a moment when the file
  system is \<open>fs\<close>: the file may have changed since the last load. A call that raises
  stops the run with the exception.
\<close>

datatype op =
    Load "string \<Rightarrow> token_info list option"
  | Next
  | MarkExhausted "string option"
  | ResetAll

fun apply_op :: "op \<Rightarrow> TokenManager \<Rightarrow> (error + TokenManager) option" where
  "apply_op (Load fs) m = Some (Inr (load_tokens fs m))"
| "apply_op Next m =
     (case get_next_token m of
        None \<Rightarrow> None
      | Some (Inl e, m', p) \<Rightarrow> Some (Inl e)
      | Some (Inr r, m', p) \<Rightarrow> Some (Inr m'))"
| "apply_op (MarkExhausted t) m = Some (Inr (mark_token_exhausted t m))"
| "apply_op ResetAll m = Some (Inr (reset_exhausted_status m))"

fun run :: "op list \<Rightarrow> TokenManager \<Rightarrow> (error + TokenManager) option" where
  "run [] m = Some (Inr m)"
| "run (x # xs) m =
     (case apply_op x m of
        None \<Rightarrow> None
      | Some (Inl e) \<Rightarrow> Some (Inl e)
      | Some (Inr m') \<Rightarrow> run xs m')"

definition cursor_in_pool :: "TokenManager \<Rightarrow> bool" where
  "cursor_in_pool m = (tokens m = [] \<or> current_token_index m < length (tokens m))"

text \<open>
  \<open>reloads_fit xs m\<close>: along the run of \<open>xs\<close> from \<open>m\<close>, every \<open>Load\<close> yields an empty list
  or a list longer than the position the cursor has at that moment.
\<close>

fun reloads_fit :: "op list \<Rightarrow> TokenManager \<Rightarrow> bool" where
  "reloads_fit [] m = True"
| "reloads_fit (x # xs) m =
     ((case x of Load fs \<Rightarrow> cursor_in_pool (load_tokens fs m) | _ \<Rightarrow> True) \<and>
      (case apply_op x m of Some (Inr m') \<Rightarrow> reloads_fit xs m' | _ \<Rightarrow> True))"

section \<open>Python values used by the client\<close>

text \<open>
  Text is a list of characters with code points below 256. \<open>is_space\<close> is Python's
  \<open>str.isspace\<close> on that range, \<open>strip\<close> is \<open>str.strip()\<close>, \<open>split_lines\<close> is
  \<open>str.split('\n')\<close> and \<open>truthy_str\<close> is the truth value of an \<open>Optional[str]\<close>.
\<close>

definition is_space :: "char \<Rightarrow> bool" where
  "is_space c = (c \<in> set [CHR 0x09, CHR 0x0A, CHR 0x0B, CHR 0x0C, CHR 0x0D,
                            CHR 0x1C, CHR 0x1D, CHR 0x1E, CHR 0x1F, CHR 0x20,
                            CHR 0x85, CHR 0xA0])"

definition strip :: "string \<Rightarrow> string" where
  "strip s = rev (dropWhile is_space (rev (dropWhile is_space s)))"

fun split_lines :: "string \<Rightarrow> string list" where
  "split_lines [] = [[]]"
| "split_lines (c # cs) =
     (if c = CHR 0x0A then [] # split_lines cs
      else (case split_lines cs of [] \<Rightarrow> [[c]] | l # ls \<Rightarrow> (c # l) # ls))"

definition truthy_str :: "string option \<Rightarrow> bool" where
  "truthy_str s = (case s of None \<Rightarrow> False | Some x \<Rightarrow> x \<noteq> [])"

definition py_str :: "string option \<Rightarrow> string" where
  "py_str s = (case s of None \<Rightarrow> ''None'' | Some x \<Rightarrow> x)"

text \<open>
  The values \<open>json.loads\<close> returns. The parser itself is a parameter \<open>loads\<close> of the
  functions below: \<open>loads s = None\<close> stands for \<open>json.JSONDecodeError\<close>.
\<close>

datatype json =
    JNull
  | JBool bool
  | JInt int
  | JFloat real
  | JStr string
  | JArr "json list"
  | JObj "(string \<times> json) list"

fun truthy :: "json \<Rightarrow> bool" where
  "truthy JNull = False"
| "truthy (JBool b) = b"
| "truthy (JInt i) = (i \<noteq> 0)"
| "truthy (JFloat x) = (x \<noteq> 0)"
| "truthy (JStr s) = (s \<noteq> [])"
| "truthy (JArr xs) = (xs \<noteq> [])"
| "truthy (JObj kvs) = (kvs \<noteq> [])"

text \<open>\<open>x.get(key, default)\<close>: only a dict has the method.\<close>

fun dict_get :: "json \<Rightarrow> string \<Rightarrow> json \<Rightarrow> error + json" where
  "dict_get (JObj kvs) k d = Inr (case map_of kvs k of None \<Rightarrow> d | Some v \<Rightarrow> v)"
| "dict_get x k d = Inl AttributeError"

text \<open>\<open>x[0]\<close>: the keys of a parsed object are strings, so \<open>0\<close> is never one of them.\<close>

fun index0 :: "json \<Rightarrow> error + json" where
  "index0 (JArr []) = Inl IndexError"
| "index0 (JArr (x # xs)) = Inr x"
| "index0 (JStr []) = Inl IndexError"
| "index0 (JStr (c # cs)) = Inr (JStr [c])"
| "index0 (JObj kvs) = Inl KeyError"
| "index0 x = Inl TypeError"

definition bind_err :: "error + 'a \<Rightarrow> ('a \<Rightarrow> error + 'b) \<Rightarrow> error + 'b" where
  "bind_err r f = (case r of Inl e \<Rightarrow> Inl e | Inr x \<Rightarrow> f x)"

section \<open>The client (class ClaudeClient)\<close>

text \<open>
  Modelled from the spec: \<open>BaseClient.__init__\<close> (\<open>app/clients/base_client.py\<close> is not
  among the sources) is taken to store its two arguments as \<open>self.api_key\<close> and
  \<open>self.api_url\<close>, the attributes the adapter reads.
\<close>

record ClaudeClient =
  token_manager :: TokenManager
  api_key :: "string option"
  api_url :: string
  provider :: string

definition BaseClient_init :: "string option \<Rightarrow> string \<Rightarrow> string \<Rightarrow> TokenManager \<Rightarrow> ClaudeClient" where
  "BaseClient_init key url prov tm =
     \<lparr>token_manager = tm, api_key = key, api_url = url, provider = prov\<rparr>"

text \<open>
  \<open>ClaudeClient.__init__\<close>. The key argument is \<open>None\<close>, empty or a key; the guard is
  the source's \<open>if not initial_token and api_key\<close>.
\<close>

definition ClaudeClient_init ::
  "(string \<Rightarrow> token_info list option) \<Rightarrow> string option \<Rightarrow> string \<Rightarrow> string \<Rightarrow> string
     \<Rightarrow> (error + ClaudeClient) option" where
  "ClaudeClient_init fs key path url prov =
     (case get_next_token (TokenManager_init fs path) of
        None \<Rightarrow> None
      | Some (Inl e, tm, p) \<Rightarrow> Some (Inl e)
      | Some (Inr initial_token, tm, p) \<Rightarrow>
          if \<not> truthy_str initial_token \<and> truthy_str key then Some (Inl ValueError)
          else if truthy_str key then Some (Inr (BaseClient_init key url prov tm))
          else Some (Inr (BaseClient_init initial_token url prov tm)))"

text \<open>
  Request headers are a Python dict from header names to values; a value is \<open>None\<close>
  when the client was built without a key. Assignment to a key keeps its place.
\<close>

type_synonym headers = "(string \<times> string option) list"

definition update_headers :: "ClaudeClient \<Rightarrow> headers \<Rightarrow> string \<Rightarrow> headers" where
  "update_headers c hdrs new_token =
     (if provider c = ''anthropic'' then AList.update ''x-api-key'' (Some new_token) hdrs
      else AList.update ''Authorization'' (Some (''Bearer '' @ new_token)) hdrs)"

text \<open>
  The transport. A chunk of the response body is the text its bytes decode to, or
  bytes that are not UTF-8. A response has a status, the body \<open>error_text\<close> read by
  \<open>response.text()\<close>, the chunks of \<open>response.content.iter_any()\<close>, and a flag telling
  whether the body iteration raises after the last chunk. The server is a parameter:
  \<open>server n (url, hdrs, data)\<close> answers the \<open>n\<close>-th request the adapter sends, \<open>None\<close> when
  \<open>session.post\<close> raises.
\<close>

datatype chunk = Text string | Undecodable

record response =
  status :: int
  error_text :: string
  content :: "chunk list"
  content_fails :: bool

type_synonym request = "string \<times> headers \<times> json"

text \<open>
  How \<open>_make_request\<close> stopped: the \<open>break\<close> after a complete body, or one of its three
  logged returns (no token left, API failure, exception caught).
\<close>

datatype ending = Completed | NoMoreTokens | ApiFailed | Caught

definition error_code :: "json \<Rightarrow> error + json" where
  "error_code error_data =
     bind_err (dict_get error_data ''error'' (JObj [])) (\<lambda>e. dict_get e ''code'' JNull)"

text \<open>
  \<open>_make_request\<close>: the chunks it yields, how it stopped, the client and headers
  afterwards, and the number of requests sent (\<open>n\<close> counts them; it is bookkeeping of the
  model). A loop that never stops has the value \<open>None\<close>.
\<close>

partial_function (option) make_request ::
  "(nat \<Rightarrow> request \<Rightarrow> response option) \<Rightarrow> (string \<Rightarrow> json option) \<Rightarrow> ClaudeClient \<Rightarrow> headers
     \<Rightarrow> json \<Rightarrow> nat \<Rightarrow> (chunk list \<times> ending \<times> ClaudeClient \<times> headers \<times> nat) option" where
  "make_request server loads c hdrs data n =
     (case server n (api_url c, hdrs, data) of
        None \<Rightarrow> Some ([], Caught, c, hdrs, n + 1)
      | Some r \<Rightarrow>
          if status r \<noteq> 200 then
            (case loads (error_text r) of
               None \<Rightarrow> Some ([], ApiFailed, c, hdrs, n + 1)
             | Some error_data \<Rightarrow>
                 (case error_code error_data of
                    Inl e \<Rightarrow> Some ([], Caught, c, hdrs, n + 1)
                  | Inr code \<Rightarrow>
                      if code = JStr ''insufficient_user_quota'' then
                        (case get_next_token (mark_token_exhausted (api_key c) (token_manager c)) of
                           None \<Rightarrow> None
                         | Some (Inl e, tm, p) \<Rightarrow>
                             Some ([], Caught, c\<lparr>token_manager := tm\<rparr>, hdrs, n + 1)
                         | Some (Inr None, tm, p) \<Rightarrow>
                             Some ([], NoMoreTokens, c\<lparr>token_manager := tm\<rparr>, hdrs, n + 1)
                         | Some (Inr (Some next_token), tm, p) \<Rightarrow>
                             if next_token = [] then
                               Some ([], NoMoreTokens, c\<lparr>token_manager := tm\<rparr>, hdrs, n + 1)
                             else make_request server loads
                                    (c\<lparr>token_manager := tm, api_key := Some next_token\<rparr>)
                                    (update_headers c hdrs next_token) data (n + 1))
                      else Some ([], ApiFailed, c, hdrs, n + 1)))
          else Some (content r, if content_fails r then Caught else Completed, c, hdrs, n + 1))"

section \<open>Streaming (method stream_chat)\<close>

text \<open>
  The headers and the body \<open>stream_chat\<close> builds for the configured provider; any other
  provider raises \<open>ValueError\<close>.
\<close>

definition build_request :: "ClaudeClient \<Rightarrow> json \<Rightarrow> string \<Rightarrow> error + (headers \<times> json)" where
  "build_request c messages model =
     (if provider c = ''openrouter'' then
        Inr ([(''Authorization'', Some (''Bearer '' @ py_str (api_key c))),
              (''Content-Type'', Some ''application/json''),
              (''HTTP-Referer'', Some ''https://github.com/ErlichLiu/DeepClaude''),
              (''X-Title'', Some ''DeepClaude'')],
             JObj [(''model'', JStr ''anthropic/claude-3.5-sonnet''),
                   (''messages'', messages),
                   (''stream'', JBool True)])
      else if provider c = ''oneapi'' then
        Inr ([(''Authorization'', Some (''Bearer '' @ py_str (api_key c))),
              (''Content-Type'', Some ''application/json'')],
             JObj [(''model'', JStr model),
                   (''messages'', messages),
                   (''stream'', JBool True)])
      else if provider c = ''anthropic'' then
        Inr ([(''x-api-key'', api_key c),
              (''anthropic-version'', Some ''2023-06-01''),
              (''content-type'', Some ''application/json''),
              (''accept'', Some ''text/event-stream'')],
             JObj [(''model'', JStr model),
                   (''messages'', messages),
                   (''max_tokens'', JInt 8192),
                   (''stream'', JBool True)])
      else Inl ValueError)"

text \<open>
  What one line of a chunk does to the output: nothing, the \<open>return\<close> at the sentinel,
  one yielded pair, or an exception that leaves \<open>stream_chat\<close>. Only
  \<open>json.JSONDecodeError\<close> is caught there.
\<close>

type_synonym event = "string \<times> json"

datatype line_result = Skip | Stop | Emit event | Raise error

definition emit_content :: "error + json \<Rightarrow> line_result" where
  "emit_content r =
     (case r of
        Inl e \<Rightarrow> Raise e
      | Inr content' \<Rightarrow> if truthy content' then Emit (''answer'', content') else Skip)"

definition decode_line :: "string \<Rightarrow> (string \<Rightarrow> json option) \<Rightarrow> string \<Rightarrow> line_result" where
  "decode_line prov loads line =
     (if take 6 line = ''data: '' then
        if strip (drop 6 line) = ''[DONE]'' then Stop
        else
          (case loads (drop 6 line) of
             None \<Rightarrow> Skip
           | Some data \<Rightarrow>
               if prov = ''openrouter'' \<or> prov = ''oneapi'' then
                 emit_content
                   (bind_err (dict_get data ''choices'' (JArr [JObj []])) (\<lambda>choices.
                    bind_err (index0 choices) (\<lambda>choice.
                    bind_err (dict_get choice ''delta'' (JObj [])) (\<lambda>delta.
                    dict_get delta ''content'' (JStr '''')))))
               else if prov = ''anthropic'' then
                 (case dict_get data ''type'' JNull of
                    Inl e \<Rightarrow> Raise e
                  | Inr ty \<Rightarrow>
                      if ty = JStr ''content_block_delta'' then
                        emit_content
                          (bind_err (dict_get data ''delta'' (JObj [])) (\<lambda>delta.
                           dict_get delta ''text'' (JStr '''')))
                      else Skip)
               else Raise ValueError)
      else Skip)"

text \<open>The loop over the lines of one chunk, and how it is left.\<close>

datatype line_end = Continue | Return | Raises error

fun decode_lines :: "string \<Rightarrow> (string \<Rightarrow> json option) \<Rightarrow> string list \<Rightarrow> event list \<times> line_end" where
  "decode_lines prov loads [] = ([], Continue)"
| "decode_lines prov loads (line # rest) =
     (case decode_line prov loads line of
        Skip \<Rightarrow> decode_lines prov loads rest
      | Stop \<Rightarrow> ([], Return)
      | Emit ev \<Rightarrow> (ev # fst (decode_lines prov loads rest), snd (decode_lines prov loads rest))
      | Raise e \<Rightarrow> ([], Raises e))"

text \<open>
  The loop over the chunks: the pairs yielded and how the generator ends (the chunks
  ran out, the sentinel was seen, or an exception left it). \<open>after_lines\<close> continues
  with the remaining chunks when the line loop ran to its end.
\<close>

datatype stream_end = Exhausted | Sentinel | Raised error

definition after_lines :: "event list \<times> line_end \<Rightarrow> event list \<times> stream_end \<Rightarrow> event list \<times> stream_end" where
  "after_lines r next =
     (case snd r of
        Continue \<Rightarrow> (fst r @ fst next, snd next)
      | Return \<Rightarrow> (fst r, Sentinel)
      | Raises e \<Rightarrow> (fst r, Raised e))"

fun decode_chunks :: "string \<Rightarrow> (string \<Rightarrow> json option) \<Rightarrow> chunk list \<Rightarrow> event list \<times> stream_end" where
  "decode_chunks prov loads [] = ([], Exhausted)"
| "decode_chunks prov loads (Undecodable # cs) = ([], Raised UnicodeDecodeError)"
| "decode_chunks prov loads (Text chunk_str # cs) =
     (if strip chunk_str = [] then decode_chunks prov loads cs
      else after_lines (decode_lines prov loads (split_lines chunk_str)) (decode_chunks prov loads cs))"

text \<open>
  \<open>stream_chat\<close>: the pairs yielded, how the generator ended, how the request loop
  stopped when its chunks were all consumed, and the client afterwards.
\<close>

definition stream_chat ::
  "(nat \<Rightarrow> request \<Rightarrow> response option) \<Rightarrow> (string \<Rightarrow> json option) \<Rightarrow> ClaudeClient \<Rightarrow> json \<Rightarrow> string
     \<Rightarrow> (event list \<times> stream_end \<times> ending option \<times> ClaudeClient) option" where
  "stream_chat server loads c messages model =
     (case build_request c messages model of
        Inl e \<Rightarrow> Some ([], Raised e, None, c)
      | Inr (hdrs, data) \<Rightarrow>
          (case make_request server loads c hdrs data 0 of
             None \<Rightarrow> None
           | Some (chunks, how, c', hdrs', n) \<Rightarrow>
               (case decode_chunks (provider c) loads chunks of
                  (evs, Exhausted) \<Rightarrow> Some (evs, Exhausted, Some how, c')
                | (evs, e) \<Rightarrow> Some (evs, e, None, c'))))"

section \<open>Sample pools\<close>

text \<open>Concrete pools on which the theorems below are evaluated.\<close>

abbreviation pool_abc :: TokenManager where
  "pool_abc \<equiv>
     \<lparr>token_file = ''tokens.json'',
      tokens = [\<lparr>token = ''a'', exhausted = None\<rparr>,
                \<lparr>token = ''b'', exhausted = Some True\<rparr>,
                \<lparr>token = ''c'', exhausted = Some True\<rparr>],
      current_token_index = 1\<rparr>"

abbreviation pool_spent :: TokenManager where
  "pool_spent \<equiv>
     \<lparr>token_file = ''tokens.json'',
      tokens = [\<lparr>token = ''b'', exhausted = Some True\<rparr>,
                \<lparr>token = ''c'', exhausted = Some True\<rparr>],
      current_token_index = 1\<rparr>"

abbreviation two_tokens :: "string \<Rightarrow> token_info list option" where
  "two_tokens \<equiv> (\<lambda>path. Some [\<lparr>token = ''t1'', exhausted = None\<rparr>, \<lparr>token = ''t2'', exhausted = None\<rparr>])"

abbreviation one_token :: "string \<Rightarrow> token_info list option" where
  "one_token \<equiv> (\<lambda>path. Some [\<lparr>token = ''t3'', exhausted = None\<rparr>])"

abbreviation pool_skip :: TokenManager where
  "pool_skip \<equiv>
     \<lparr>token_file = ''tokens.json'',
      tokens = [\<lparr>token = ''x'', exhausted = Some True\<rparr>,
                \<lparr>token = ''y'', exhausted = Some False\<rparr>],
      current_token_index = 0\<rparr>"

abbreviation pool_dup :: TokenManager where
  "pool_dup \<equiv>
     \<lparr>token_file = ''tokens.json'',
      tokens = [\<lparr>token = ''a'', exhausted = None\<rparr>,
                \<lparr>token = ''b'', exhausted = None\<rparr>,
                \<lparr>token = ''b'', exhausted = Some False\<rparr>],
      current_token_index = 0\<rparr>"

section \<open>Sample stream lines\<close>

text \<open>
  Concrete lines of an event stream, and a parser that knows the three JSON texts
  used below and rejects every other string.
\<close>

abbreviation line_hi :: string where
  "line_hi \<equiv> ''data: {\"type\":\"content_block_delta\",\"delta\":{\"text\":\"Hi\"}}''"

abbreviation line_ok :: string where
  "line_ok \<equiv> ''data: {\"choices\":[{\"delta\":{\"content\":\"ok\"}}]}''"

abbreviation line_bad :: string where
  "line_bad \<equiv> ''data: {not json''"

abbreviation line_done :: string where
  "line_done \<equiv> ''data: [DONE]''"

abbreviation quota_text :: string where
  "quota_text \<equiv> ''{\"error\":{\"code\":\"insufficient_user_quota\"}}''"

abbreviation sample_loads :: "string \<Rightarrow> json option" where
  "sample_loads \<equiv> (\<lambda>s.
     if s = drop 6 line_hi
       then Some (JObj [(''type'', JStr ''content_block_delta''),
                        (''delta'', JObj [(''text'', JStr ''Hi'')])])
     else if s = drop 6 line_ok
       then Some (JObj [(''choices'', JArr [JObj [(''delta'', JObj [(''content'', JStr ''ok'')])]])])
     else if s = quota_text
       then Some (JObj [(''error'', JObj [(''code'', JStr ''insufficient_user_quota'')])])
     else None)"

section \<open>Sample clients and servers\<close>

text \<open>
  Two responses, the request \<open>stream_chat\<close> builds for the Anthropic provider with an
  empty message list, a server that refuses the key \<open>t1\<close> with the quota error and
  serves every other key, and a server that refuses every key.
\<close>

abbreviation quota_response :: response where
  "quota_response \<equiv> \<lparr>status = 429, error_text = quota_text, content = [], content_fails = False\<rparr>"


abbreviation anthropic_url :: string where
  "anthropic_url \<equiv> ''https://api.anthropic.com/v1/messages''"

abbreviation anthropic_headers :: "string \<Rightarrow> headers" where
  "anthropic_headers key \<equiv>
     [(''x-api-key'', Some key),
      (''anthropic-version'', Some ''2023-06-01''),
      (''content-type'', Some ''application/json''),
      (''accept'', Some ''text/event-stream'')]"

abbreviation anthropic_body :: json where
  "anthropic_body \<equiv>
     JObj [(''model'', JStr ''claude-3-5-sonnet-20241022''),
           (''messages'', JArr []),
           (''max_tokens'', JInt 8192),
           (''stream'', JBool True)]"


abbreviation quota_server :: "nat \<Rightarrow> request \<Rightarrow> response option" where
  "quota_server \<equiv> (\<lambda>n req. Some quota_response)"

abbreviation client_of :: "token_info list \<Rightarrow> nat \<Rightarrow> string \<Rightarrow> ClaudeClient" where
  "client_of ts i key \<equiv>
     \<lparr>token_manager = \<lparr>token_file = ''tokens.json'', tokens = ts, current_token_index = i\<rparr>,
      api_key = Some key, api_url = anthropic_url, provider = ''anthropic''\<rparr>"



abbreviation pool_t_t :: "token_info list" where
  "pool_t_t \<equiv> [\<lparr>token = ''t'', exhausted = None\<rparr>, \<lparr>token = ''t'', exhausted = None\<rparr>]"

abbreviation pool_t_spent_t :: "token_info list" where
  "pool_t_spent_t \<equiv> [\<lparr>token = ''t'', exhausted = Some True\<rparr>, \<lparr>token = ''t'', exhausted = None\<rparr>]"

section \<open>The supply of usable tokens\<close>

text \<open>The number of entries that are not exhausted: what the retry loop uses up.\<close>

definition usable :: "TokenManager \<Rightarrow> nat" where
  "usable m = length (filter (\<lambda>e. \<not> is_exhausted e) (tokens m))"

section \<open>Facts about the scan of \<open>get_next_token\<close>\<close>

declare mark_token_exhausted_loop.simps [simp del]




lemma index_pos: "(s::nat) < length xs \<Longrightarrow> 0 < length xs"
  by (cases xs) auto

lemma mod_offset_ne:
  assumes "s < (N::nat)" "0 < d" "d < N"
  shows "(s + d) mod N \<noteq> s"
proof
  assume h: "(s + d) mod N = s"
  show False
  proof (cases "s + d < N")
    case True
    with h assms show False by simp
  next
    case False
    then have "(s + d) mod N = s + d - N"
      using assms by (simp add: mod_if)
    with h assms False show False by simp
  qed
qed

lemma loop_found:
  assumes "s < length (tokens m)"
    and "current_token_index m = (s + k) mod length (tokens m)"
    and "k \<le> j" and "j < length (tokens m)"
    and "\<not> is_exhausted (tokens m ! ((s + j) mod length (tokens m)))"
    and "\<forall>l. k \<le> l \<and> l < j \<longrightarrow> is_exhausted (tokens m ! ((s + l) mod length (tokens m)))"
  shows "get_next_token_loop s m p =
           Some (Inr (Some (token (tokens m ! ((s + j) mod length (tokens m))))),
                 m\<lparr>current_token_index := (s + j) mod length (tokens m)\<rparr>, p + (j - k) + 1)"
  using assms
proof (induction "j - k" arbitrary: k m p)
  case 0
  then have kj: "k = j" by simp
  have "0 < length (tokens m)" using 0(2) by (rule index_pos)
  then have lt: "current_token_index m < length (tokens m)"
    using 0 by simp
  show ?case
    using 0 kj lt by (subst get_next_token_loop.simps) simp
next
  case (Suc d)
  let ?N = "length (tokens m)"
  let ?m' = "m\<lparr>current_token_index := (s + (k + 1)) mod ?N\<rparr>"
  have klt: "k < j" using Suc.hyps by simp
  have Npos: "0 < ?N" using Suc.prems(1) by (rule index_pos)
  have lt: "current_token_index m < ?N" using Suc.prems Npos by simp
  have ex: "is_exhausted (tokens m ! current_token_index m)"
    using Suc.prems klt by simp
  have step: "(current_token_index m + 1) mod ?N = (s + (k + 1)) mod ?N"
    using Suc.prems(2) Npos by (simp add: mod_Suc_eq)
  have ne: "(s + (k + 1)) mod ?N \<noteq> s"
    using mod_offset_ne[of s ?N "k + 1"] Suc.prems klt by simp
  have unfold: "get_next_token_loop s m p = get_next_token_loop s ?m' (p + 1)"
    using lt ex step ne by (subst get_next_token_loop.simps) simp
  have IH: "get_next_token_loop s ?m' (p + 1) =
           Some (Inr (Some (token (tokens ?m' ! ((s + j) mod length (tokens ?m'))))),
                 ?m'\<lparr>current_token_index := (s + j) mod length (tokens ?m')\<rparr>, (p + 1) + (j - (k + 1)) + 1)"
    using Suc.hyps Suc.prems klt
    by (intro Suc.hyps(1)) auto
  show ?case using unfold IH klt by simp
qed

lemma loop_none:
  assumes "s < length (tokens m)"
    and "current_token_index m = (s + k) mod length (tokens m)"
    and "k < length (tokens m)"
    and "\<forall>l. k \<le> l \<and> l < length (tokens m) \<longrightarrow> is_exhausted (tokens m ! ((s + l) mod length (tokens m)))"
  shows "get_next_token_loop s m p =
           Some (Inr None, m\<lparr>current_token_index := s\<rparr>, p + (length (tokens m) - k))"
  using assms
proof (induction "length (tokens m) - k" arbitrary: k m p)
  case 0
  then show ?case by simp
next
  case (Suc d)
  let ?N = "length (tokens m)"
  let ?m' = "m\<lparr>current_token_index := (s + (k + 1)) mod ?N\<rparr>"
  have Npos: "0 < ?N" using Suc.prems(1) by (rule index_pos)
  have lt: "current_token_index m < ?N" using Suc.prems Npos by simp
  have ex: "is_exhausted (tokens m ! current_token_index m)"
    using Suc.prems by simp
  have step: "(current_token_index m + 1) mod ?N = (s + (k + 1)) mod ?N"
    using Suc.prems(2) Npos by (simp add: mod_Suc_eq)
  show ?case
  proof (cases "k + 1 = ?N")
    case True
    then have "(s + (k + 1)) mod ?N = s" using Suc.prems(1) by simp
    then show ?thesis
      using lt ex step True by (subst get_next_token_loop.simps) simp
  next
    case False
    then have k1: "k + 1 < ?N" using Suc.prems by simp
    have ne: "(s + (k + 1)) mod ?N \<noteq> s"
      using mod_offset_ne[of s ?N "k + 1"] Suc.prems k1 by simp
    have unfold: "get_next_token_loop s m p = get_next_token_loop s ?m' (p + 1)"
      using lt ex step ne by (subst get_next_token_loop.simps) simp
    have IH: "get_next_token_loop s ?m' (p + 1) =
           Some (Inr None, ?m'\<lparr>current_token_index := s\<rparr>, (p + 1) + (length (tokens ?m') - (k + 1)))"
      using Suc.hyps Suc.prems k1
      by (intro Suc.hyps(1)) auto
    show ?thesis using unfold IH k1 by simp
  qed
qed


lemma get_next_token_cases:
  assumes c: "current_token_index m < length (tokens m)"
  shows "(\<exists>k<length (tokens m).
            \<not> is_exhausted (tokens m ! ((current_token_index m + k) mod length (tokens m))) \<and>
            (\<forall>j<k. is_exhausted (tokens m ! ((current_token_index m + j) mod length (tokens m)))) \<and>
            get_next_token m =
              Some (Inr (Some (token (tokens m ! ((current_token_index m + k) mod length (tokens m))))),
                    m\<lparr>current_token_index := (current_token_index m + k) mod length (tokens m)\<rparr>, k + 1))
       \<or> ((\<forall>l<length (tokens m).
              is_exhausted (tokens m ! ((current_token_index m + l) mod length (tokens m)))) \<and>
           get_next_token m = Some (Inr None, m, length (tokens m)))"
proof -
  let ?N = "length (tokens m)"
  let ?c = "current_token_index m"
  let ?P = "\<lambda>k. k < ?N \<and> \<not> is_exhausted (tokens m ! ((?c + k) mod ?N))"
  have ne: "tokens m \<noteq> []" using c by auto
  have c0: "?c = (?c + 0) mod ?N" using c by simp
  show ?thesis
  proof (cases "\<exists>k. ?P k")
    case True
    define k where "k = (LEAST k. ?P k)"
    have Pk: "?P k" unfolding k_def using True by (rule LeastI_ex)
    have least: "\<forall>j<k. is_exhausted (tokens m ! ((?c + j) mod ?N))"
    proof (intro allI impI)
      fix j assume jk: "j < k"
      then have "\<not> ?P j" unfolding k_def by (rule not_less_Least)
      moreover have "j < ?N" using jk Pk by simp
      ultimately show "is_exhausted (tokens m ! ((?c + j) mod ?N))" by simp
    qed
    have "get_next_token_loop ?c m 0 =
            Some (Inr (Some (token (tokens m ! ((?c + k) mod ?N)))),
                  m\<lparr>current_token_index := (?c + k) mod ?N\<rparr>, 0 + (k - 0) + 1)"
      using c c0 Pk least by (intro loop_found) auto
    then have "get_next_token m =
            Some (Inr (Some (token (tokens m ! ((?c + k) mod ?N)))),
                  m\<lparr>current_token_index := (?c + k) mod ?N\<rparr>, k + 1)"
      using ne by (simp add: get_next_token_def)
    with Pk least show ?thesis by blast
  next
    case False
    then have all: "\<forall>l<?N. is_exhausted (tokens m ! ((?c + l) mod ?N))" by blast
    have "get_next_token_loop ?c m 0 = Some (Inr None, m\<lparr>current_token_index := ?c\<rparr>, 0 + (?N - 0))"
      using c c0 all by (intro loop_none) auto
    then have "get_next_token m = Some (Inr None, m, ?N)"
      using ne by (simp add: get_next_token_def)
    with all show ?thesis by blast
  qed
qed

lemma get_next_token_out_of_range:
  assumes "tokens m \<noteq> []" "length (tokens m) \<le> current_token_index m"
  shows "get_next_token m = Some (Inl IndexError, m, 0)"
  using assms by (simp add: get_next_token_def get_next_token_loop.simps)

section \<open>Facts about \<open>mark_token_exhausted\<close>\<close>


lemma mark_loop_found:
  assumes "i \<le> k" "k < length (tokens m)" "Some (token (tokens m ! k)) = t"
    and "\<forall>j. i \<le> j \<and> j < k \<longrightarrow> Some (token (tokens m ! j)) \<noteq> t"
  shows "mark_token_exhausted_loop t i m =
           m\<lparr>tokens := (tokens m)[k := (tokens m ! k)\<lparr>exhausted := Some True\<rparr>],
             current_token_index := (k + 1) mod length (tokens m)\<rparr>"
  using assms
proof (induction "k - i" arbitrary: i)
  case 0
  then have "i = k" by simp
  with 0 show ?case by (subst mark_token_exhausted_loop.simps) simp
next
  case (Suc d)
  then have ik: "i < k" by simp
  with Suc.prems have nomatch: "Some (token (tokens m ! i)) \<noteq> t" by simp
  have "mark_token_exhausted_loop t i m = mark_token_exhausted_loop t (i + 1) m"
    using ik Suc.prems(2) nomatch by (subst mark_token_exhausted_loop.simps) simp
  moreover have "mark_token_exhausted_loop t (i + 1) m =
           m\<lparr>tokens := (tokens m)[k := (tokens m ! k)\<lparr>exhausted := Some True\<rparr>],
             current_token_index := (k + 1) mod length (tokens m)\<rparr>"
    using Suc.hyps Suc.prems ik by (intro Suc.hyps(1)) auto
  ultimately show ?case by simp
qed

lemma mark_loop_none:
  assumes "\<forall>j. i \<le> j \<and> j < length (tokens m) \<longrightarrow> Some (token (tokens m ! j)) \<noteq> t"
  shows "mark_token_exhausted_loop t i m = m"
  using assms
proof (induction "length (tokens m) - i" arbitrary: i)
  case 0
  then show ?case by (subst mark_token_exhausted_loop.simps) simp
next
  case (Suc d)
  then have il: "i < length (tokens m)" by simp
  with Suc.prems have nomatch: "Some (token (tokens m ! i)) \<noteq> t" by simp
  have "mark_token_exhausted_loop t i m = mark_token_exhausted_loop t (i + 1) m"
    using il nomatch by (subst mark_token_exhausted_loop.simps) simp
  moreover have "mark_token_exhausted_loop t (i + 1) m = m"
    using Suc.hyps Suc.prems il by (intro Suc.hyps(1)) auto
  ultimately show ?case by simp
qed

lemma mark_token_exhausted_cases:
  "(\<exists>k<length (tokens m). Some (token (tokens m ! k)) = t \<and>
       (\<forall>j<k. Some (token (tokens m ! j)) \<noteq> t) \<and>
       mark_token_exhausted t m =
         m\<lparr>tokens := (tokens m)[k := (tokens m ! k)\<lparr>exhausted := Some True\<rparr>],
           current_token_index := (k + 1) mod length (tokens m)\<rparr>)
   \<or> ((\<forall>j<length (tokens m). Some (token (tokens m ! j)) \<noteq> t) \<and> mark_token_exhausted t m = m)"
proof -
  let ?P = "\<lambda>k. k < length (tokens m) \<and> Some (token (tokens m ! k)) = t"
  show ?thesis
  proof (cases "\<exists>k. ?P k")
    case True
    define k where "k = (LEAST k. ?P k)"
    have Pk: "?P k" unfolding k_def using True by (rule LeastI_ex)
    have least: "\<forall>j<k. Some (token (tokens m ! j)) \<noteq> t"
    proof (intro allI impI)
      fix j assume jk: "j < k"
      then have "\<not> ?P j" unfolding k_def by (rule not_less_Least)
      moreover have "j < length (tokens m)" using jk Pk by simp
      ultimately show "Some (token (tokens m ! j)) \<noteq> t" by simp
    qed
    have "mark_token_exhausted t m =
         m\<lparr>tokens := (tokens m)[k := (tokens m ! k)\<lparr>exhausted := Some True\<rparr>],
           current_token_index := (k + 1) mod length (tokens m)\<rparr>"
      unfolding mark_token_exhausted_def using Pk least by (intro mark_loop_found) auto
    with Pk least show ?thesis by blast
  next
    case False
    then have none: "\<forall>j<length (tokens m). Some (token (tokens m ! j)) \<noteq> t" by blast
    then have "mark_token_exhausted t m = m"
      unfolding mark_token_exhausted_def by (intro mark_loop_none) auto
    with none show ?thesis by blast
  qed
qed

section \<open>The cursor stays inside the pool\<close>


lemma get_next_token_keeps_cursor_in_pool:
  assumes "cursor_in_pool m"
  shows "\<exists>r m' p. get_next_token m = Some (Inr r, m', p) \<and> cursor_in_pool m'"
proof (cases "tokens m = []")
  case True
  with assms show ?thesis by (simp add: get_next_token_def)
next
  case False
  then have c: "current_token_index m < length (tokens m)"
    using assms by (simp add: cursor_in_pool_def)
  then have "0 < length (tokens m)" by (rule index_pos)
  then have "\<And>k. cursor_in_pool (m\<lparr>current_token_index := (current_token_index m + k) mod length (tokens m)\<rparr>)"
    by (simp add: cursor_in_pool_def)
  with get_next_token_cases[OF c] assms show ?thesis by auto
qed

lemma mark_token_exhausted_keeps_cursor_in_pool:
  assumes "cursor_in_pool m"
  shows "cursor_in_pool (mark_token_exhausted t m)"
proof -
  have "cursor_in_pool (m\<lparr>tokens := (tokens m)[k := e], current_token_index := (k + 1) mod length (tokens m)\<rparr>)"
    if "k < length (tokens m)" for k e
  proof -
    have "0 < length (tokens m)" using that by (rule index_pos)
    then show ?thesis by (simp add: cursor_in_pool_def)
  qed
  with mark_token_exhausted_cases[of m t] assms show ?thesis by auto
qed

lemma reset_keeps_cursor_in_pool:
  "cursor_in_pool m \<Longrightarrow> cursor_in_pool (reset_exhausted_status m)"
  by (simp add: cursor_in_pool_def reset_exhausted_status_def)

lemma run_keeps_cursor_in_pool:
  assumes "cursor_in_pool m" "reloads_fit xs m"
  shows "\<exists>m'. run xs m = Some (Inr m') \<and> cursor_in_pool m'"
  using assms
proof (induction xs arbitrary: m)
  case Nil
  then show ?case by simp
next
  case (Cons x xs)
  have "\<exists>m1. apply_op x m = Some (Inr m1) \<and> cursor_in_pool m1"
  proof (cases x)
    case (Load fs)
    with Cons.prems show ?thesis by simp
  next
    case Next
    with get_next_token_keeps_cursor_in_pool[OF Cons.prems(1)] show ?thesis by auto
  next
    case (MarkExhausted t)
    with mark_token_exhausted_keeps_cursor_in_pool[OF Cons.prems(1)] show ?thesis by simp
  next
    case ResetAll
    with reset_keeps_cursor_in_pool[OF Cons.prems(1)] show ?thesis by simp
  qed
  then obtain m1 where m1: "apply_op x m = Some (Inr m1)" "cursor_in_pool m1" by blast
  with Cons.prems have "reloads_fit xs m1" by simp
  from Cons.IH[OF m1(2) this] m1 show ?case by simp
qed

lemma init_cursor_in_pool: "cursor_in_pool (TokenManager_init fs path)"
  by (auto simp: cursor_in_pool_def TokenManager_init_def load_tokens_def split: option.splits)

section \<open>Facts about line and chunk decoding\<close>


lemma strip_empty_iff: "strip s = [] \<longleftrightarrow> (\<forall>c\<in>set s. is_space c)"
proof (cases "dropWhile is_space s = []")
  case True
  have "strip s = []" unfolding strip_def True by simp
  moreover from True have "\<forall>c\<in>set s. is_space c" by simp
  ultimately show ?thesis by simp
next
  case False
  then obtain x xs where x: "dropWhile is_space s = x # xs" by (cases "dropWhile is_space s") auto
  then have nx: "\<not> is_space x" using hd_dropWhile[of is_space s] by simp
  have "x \<in> set (rev (dropWhile is_space s))" using x by simp
  with nx have "dropWhile is_space (rev (dropWhile is_space s)) \<noteq> []"
    by auto
  moreover have "\<not> (\<forall>c\<in>set s. is_space c)" using False by simp
  ultimately show ?thesis unfolding strip_def by auto
qed

lemma split_lines_not_Nil: "split_lines s \<noteq> []"
  by (induction s) (auto split: list.splits)

lemma split_lines_chars: "line \<in> set (split_lines s) \<Longrightarrow> set line \<subseteq> set s"
proof (induction s arbitrary: line)
  case Nil
  then show ?case by simp
next
  case (Cons c cs)
  show ?case
  proof (cases "c = CHR 0x0A")
    case True
    with Cons show ?thesis by auto
  next
    case False
    obtain l ls where l: "split_lines cs = l # ls"
      using split_lines_not_Nil[of cs] by (cases "split_lines cs") auto
    with False Cons.prems have "line = c # l \<or> line \<in> set ls" by simp
    then show ?thesis
    proof
      assume "line = c # l"
      moreover have "set l \<subseteq> set cs" using Cons.IH[of l] l by simp
      ultimately show ?thesis by auto
    next
      assume "line \<in> set ls"
      then have "set line \<subseteq> set cs" using Cons.IH[of line] l by simp
      then show ?thesis by auto
    qed
  qed
qed

lemma data_line_not_blank:
  assumes "take 6 line = ''data: ''" "line \<in> set (split_lines chunk_str)"
  shows "strip chunk_str \<noteq> []"
proof -
  have "CHR ''d'' \<in> set (take 6 line)" using assms(1) by simp
  then have "CHR ''d'' \<in> set line" by (rule in_set_takeD)
  then have "CHR ''d'' \<in> set chunk_str" using split_lines_chars[OF assms(2)] by blast
  moreover have "\<not> is_space (CHR ''d'')" by (simp add: is_space_def)
  ultimately show ?thesis by (auto simp: strip_empty_iff)
qed

lemma decode_lines_skip:
  assumes "decode_line prov loads line = Skip"
  shows "decode_lines prov loads (before @ line # after) = decode_lines prov loads (before @ after)"
  by (induction before) (auto simp: assms split: line_result.splits)

lemma decode_lines_stop:
  assumes "decode_line prov loads line = Stop"
  shows "fst (decode_lines prov loads (before @ line # after)) = fst (decode_lines prov loads before)
       \<and> snd (decode_lines prov loads (before @ line # after)) =
           (case snd (decode_lines prov loads before) of Continue \<Rightarrow> Return | e \<Rightarrow> e)"
  by (induction before) (auto simp: assms split: line_result.splits)

section \<open>Facts about the request loop\<close>





lemma stuck_step:
  "get_next_token (mark_token_exhausted (Some ''t'')
       \<lparr>token_file = ''tokens.json'', tokens = pool_t_t, current_token_index = 0\<rparr>)
     = Some (Inr (Some ''t''),
             \<lparr>token_file = ''tokens.json'', tokens = pool_t_spent_t, current_token_index = 1\<rparr>, 1)"
  "get_next_token (mark_token_exhausted (Some ''t'')
       \<lparr>token_file = ''tokens.json'', tokens = pool_t_spent_t, current_token_index = Suc 0\<rparr>)
     = Some (Inr (Some ''t''),
             \<lparr>token_file = ''tokens.json'', tokens = pool_t_spent_t, current_token_index = 1\<rparr>, 1)"
  by (simp_all add: mark_token_exhausted_def mark_token_exhausted_loop.simps get_next_token_def
      get_next_token_loop.simps is_exhausted_def)

lemma stuck_never_returns:
  assumes "make_request server loads c hdrs data n = Some y"
  shows "\<not> ((\<forall>k req. server k req = Some quota_response)
            \<and> loads quota_text = Some (JObj [(''error'', JObj [(''code'', JStr ''insufficient_user_quota'')])])
            \<and> hdrs = anthropic_headers ''t''
            \<and> (c = client_of pool_t_t 0 ''t'' \<or> c = client_of pool_t_spent_t 1 ''t''))"
  using assms
proof (induction rule: make_request.raw_induct[rotated 1, consumes 1])
  case (1 make_request server loads c hdrs data n y)
  show ?case
  proof
    assume a: "(\<forall>k req. server k req = Some quota_response)
            \<and> loads quota_text = Some (JObj [(''error'', JObj [(''code'', JStr ''insufficient_user_quota'')])])
            \<and> hdrs = anthropic_headers ''t''
            \<and> (c = client_of pool_t_t 0 ''t'' \<or> c = client_of pool_t_spent_t 1 ''t'')"
    then have c: "c = client_of pool_t_t 0 ''t'' \<or> c = client_of pool_t_spent_t 1 ''t''" by simp
    have "make_request server loads (client_of pool_t_spent_t 1 ''t'')
            (anthropic_headers ''t'') data (n + 1) = Some y"
      using c
    proof
      assume "c = client_of pool_t_t 0 ''t''"
      with 1(2) a show ?thesis
        by (simp add: error_code_def bind_err_def stuck_step update_headers_def)
    next
      assume "c = client_of pool_t_spent_t 1 ''t''"
      with 1(2) a show ?thesis
        by (simp add: error_code_def bind_err_def stuck_step update_headers_def)
    qed
    from 1(1)[OF this] a show False by simp
  qed
qed

section \<open>The retry loop on pairwise distinct tokens\<close>

text \<open>
  When no token occurs twice in the pool, marking the active key uses up the entry
  that \<open>get_next_token\<close> returned it from, so every retry after the first lowers the
  number of usable entries. The loop then stops after at most \<open>N + 1\<close> requests,
  whatever the server answers.
\<close>

lemma filter_update_drop:
  "k < length xs \<Longrightarrow> P (xs ! k) \<Longrightarrow> \<not> P y \<Longrightarrow>
     Suc (length (filter P (xs[k := y]))) = length (filter P xs)"
  by (induction xs arbitrary: k) (auto split: nat.splits)

lemma filter_update_le:
  "\<not> P y \<Longrightarrow> length (filter P (xs[k := y])) \<le> length (filter P xs)"
  by (induction xs arbitrary: k) (auto split: nat.splits simp: le_SucI)

lemma usable_le_length: "usable m \<le> length (tokens m)"
  by (simp add: usable_def)

lemma get_next_token_total:
  "\<exists>r m' p. get_next_token m = Some (r, m', p) \<and> tokens m' = tokens m
     \<and> (\<forall>t. r = Inr (Some t) \<longrightarrow>
           (\<exists>i<length (tokens m). token (tokens m ! i) = t \<and> \<not> is_exhausted (tokens m ! i)))"
proof (cases "tokens m = []")
  case True
  then show ?thesis by (simp add: get_next_token_def)
next
  case False
  show ?thesis
  proof (cases "current_token_index m < length (tokens m)")
    case True
    then have "0 < length (tokens m)" by (rule index_pos)
    then have lt: "\<And>k. (current_token_index m + k) mod length (tokens m) < length (tokens m)"
      by simp
    from get_next_token_cases[OF True] show ?thesis
    proof
      assume "\<exists>k<length (tokens m).
            \<not> is_exhausted (tokens m ! ((current_token_index m + k) mod length (tokens m))) \<and>
            (\<forall>j<k. is_exhausted (tokens m ! ((current_token_index m + j) mod length (tokens m)))) \<and>
            get_next_token m =
              Some (Inr (Some (token (tokens m ! ((current_token_index m + k) mod length (tokens m))))),
                    m\<lparr>current_token_index := (current_token_index m + k) mod length (tokens m)\<rparr>, k + 1)"
      then obtain k where k: "\<not> is_exhausted (tokens m ! ((current_token_index m + k) mod length (tokens m)))"
        "get_next_token m =
              Some (Inr (Some (token (tokens m ! ((current_token_index m + k) mod length (tokens m))))),
                    m\<lparr>current_token_index := (current_token_index m + k) mod length (tokens m)\<rparr>, k + 1)"
        by blast
      show ?thesis using k lt[of k] by auto
    next
      assume "(\<forall>l<length (tokens m).
              is_exhausted (tokens m ! ((current_token_index m + l) mod length (tokens m)))) \<and>
           get_next_token m = Some (Inr None, m, length (tokens m))"
      then show ?thesis by simp
    qed
  next
    case out: False
    then have "get_next_token m = Some (Inl IndexError, m, 0)"
      using False by (intro get_next_token_out_of_range) auto
    then show ?thesis by simp
  qed
qed

lemma mark_token_exhausted_usable:
  "map token (tokens (mark_token_exhausted t m)) = map token (tokens m)
   \<and> usable (mark_token_exhausted t m) \<le> usable m
   \<and> (distinct (map token (tokens m)) \<longrightarrow>
        (\<forall>i<length (tokens m). Some (token (tokens m ! i)) = t \<and> \<not> is_exhausted (tokens m ! i)
            \<longrightarrow> Suc (usable (mark_token_exhausted t m)) = usable m))"
proof -
  from mark_token_exhausted_cases[of m t] show ?thesis
  proof
    assume "\<exists>k<length (tokens m). Some (token (tokens m ! k)) = t \<and>
       (\<forall>j<k. Some (token (tokens m ! j)) \<noteq> t) \<and>
       mark_token_exhausted t m =
         m\<lparr>tokens := (tokens m)[k := (tokens m ! k)\<lparr>exhausted := Some True\<rparr>],
           current_token_index := (k + 1) mod length (tokens m)\<rparr>"
    then obtain k where k: "k < length (tokens m)" "Some (token (tokens m ! k)) = t"
      and eq: "mark_token_exhausted t m =
         m\<lparr>tokens := (tokens m)[k := (tokens m ! k)\<lparr>exhausted := Some True\<rparr>],
           current_token_index := (k + 1) mod length (tokens m)\<rparr>"
      by blast
    have spent: "is_exhausted ((tokens m ! k)\<lparr>exhausted := Some True\<rparr>)"
      by (simp add: is_exhausted_def)
    have toks: "map token (tokens (mark_token_exhausted t m)) = map token (tokens m)"
      unfolding eq using k(1) by (simp add: map_update list_update_same_conv)
    have le: "usable (mark_token_exhausted t m) \<le> usable m"
      unfolding eq usable_def using spent
      filter_update_le[where P = "\<lambda>e. \<not> is_exhausted e" and xs = "tokens m" and k = k
        and y = "(tokens m ! k)\<lparr>exhausted := Some True\<rparr>"]
      by simp
    have dec: "Suc (usable (mark_token_exhausted t m)) = usable m"
      if d: "distinct (map token (tokens m))" and i: "i < length (tokens m)"
        "Some (token (tokens m ! i)) = t" "\<not> is_exhausted (tokens m ! i)" for i
    proof -
      have "map token (tokens m) ! i = map token (tokens m) ! k"
        using i k by auto
      then have "i = k"
        using d i(1) k(1) nth_eq_iff_index_eq[of "map token (tokens m)" i k] by simp
      then have "\<not> is_exhausted (tokens m ! k)" using i by simp
      with k(1) spent
        filter_update_drop[where P = "\<lambda>e. \<not> is_exhausted e" and xs = "tokens m" and k = k
          and y = "(tokens m ! k)\<lparr>exhausted := Some True\<rparr>"]
      show ?thesis
        unfolding eq usable_def by simp
    qed
    show ?thesis using toks le dec by blast
  next
    assume "(\<forall>j<length (tokens m). Some (token (tokens m ! j)) \<noteq> t) \<and> mark_token_exhausted t m = m"
    then show ?thesis by auto
  qed
qed


lemma make_request_step:
  "(\<exists>chunks how c' hdrs'.
       make_request server loads c hdrs data n = Some (chunks, how, c', hdrs', n + 1))
   \<or> (\<exists>t tm p.
        get_next_token (mark_token_exhausted (api_key c) (token_manager c)) = Some (Inr (Some t), tm, p)
        \<and> t \<noteq> []
        \<and> make_request server loads c hdrs data n =
            make_request server loads (c\<lparr>token_manager := tm, api_key := Some t\<rparr>)
              (update_headers c hdrs t) data (n + 1))"
proof -
  obtain r tm p where g:
    "get_next_token (mark_token_exhausted (api_key c) (token_manager c)) = Some (r, tm, p)"
    using get_next_token_total[of "mark_token_exhausted (api_key c) (token_manager c)"] by blast
  have eq: "make_request server loads c hdrs data n =
     (case server n (api_url c, hdrs, data) of
        None \<Rightarrow> Some ([], Caught, c, hdrs, n + 1)
      | Some r \<Rightarrow>
          if status r \<noteq> 200 then
            (case loads (error_text r) of
               None \<Rightarrow> Some ([], ApiFailed, c, hdrs, n + 1)
             | Some error_data \<Rightarrow>
                 (case error_code error_data of
                    Inl e \<Rightarrow> Some ([], Caught, c, hdrs, n + 1)
                  | Inr code \<Rightarrow>
                      if code = JStr ''insufficient_user_quota'' then
                        (case get_next_token (mark_token_exhausted (api_key c) (token_manager c)) of
                           None \<Rightarrow> None
                         | Some (Inl e, tm, p) \<Rightarrow>
                             Some ([], Caught, c\<lparr>token_manager := tm\<rparr>, hdrs, n + 1)
                         | Some (Inr None, tm, p) \<Rightarrow>
                             Some ([], NoMoreTokens, c\<lparr>token_manager := tm\<rparr>, hdrs, n + 1)
                         | Some (Inr (Some next_token), tm, p) \<Rightarrow>
                             if next_token = [] then
                               Some ([], NoMoreTokens, c\<lparr>token_manager := tm\<rparr>, hdrs, n + 1)
                             else make_request server loads
                                    (c\<lparr>token_manager := tm, api_key := Some next_token\<rparr>)
                                    (update_headers c hdrs next_token) data (n + 1))
                      else Some ([], ApiFailed, c, hdrs, n + 1)))
          else Some (content r, if content_fails r then Caught else Completed, c, hdrs, n + 1))"
    by (rule make_request.simps)
  let ?X = "make_request server loads c hdrs data n"
  show ?thesis
  proof (cases "server n (api_url c, hdrs, data)")
    case None
    with eq have "?X = Some ([], Caught, c, hdrs, n + 1)" by simp
    then show ?thesis by blast
  next
    case (Some resp)
    note resp = Some
    show ?thesis
    proof (cases "status resp \<noteq> 200")
      case False
      with eq resp have "?X = Some (content resp, if content_fails resp then Caught else Completed,
          c, hdrs, n + 1)" by simp
      then show ?thesis by blast
    next
      case True
      note st = True
      show ?thesis
      proof (cases "loads (error_text resp)")
        case None
        with eq resp st have "?X = Some ([], ApiFailed, c, hdrs, n + 1)" by simp
        then show ?thesis by blast
      next
        case (Some error_data)
        note ed = Some
        show ?thesis
        proof (cases "error_code error_data")
          case (Inl e)
          with eq resp st ed have "?X = Some ([], Caught, c, hdrs, n + 1)" by simp
          then show ?thesis by blast
        next
          case (Inr code)
          note cd = Inr
          show ?thesis
          proof (cases "code = JStr ''insufficient_user_quota''")
            case False
            with eq resp st ed cd have "?X = Some ([], ApiFailed, c, hdrs, n + 1)" by simp
            then show ?thesis by blast
          next
            case True
            note q = True
            show ?thesis
            proof (cases r)
              case (Inl e)
              with eq resp st ed cd q g
              have "?X = Some ([], Caught, c\<lparr>token_manager := tm\<rparr>, hdrs, n + 1)" by simp
              then show ?thesis by blast
            next
              case (Inr next_token)
              note nt = Inr
              show ?thesis
              proof (cases next_token)
                case None
                with eq resp st ed cd q g nt
                have "?X = Some ([], NoMoreTokens, c\<lparr>token_manager := tm\<rparr>, hdrs, n + 1)" by simp
                then show ?thesis by blast
              next
                case (Some t)
                note t = Some
                show ?thesis
                proof (cases "t = []")
                  case True
                  with eq resp st ed cd q g nt t
                  have "?X = Some ([], NoMoreTokens, c\<lparr>token_manager := tm\<rparr>, hdrs, n + 1)" by simp
                  then show ?thesis by blast
                next
                  case False
                  with eq resp st ed cd q g nt t
                  have "?X = make_request server loads (c\<lparr>token_manager := tm, api_key := Some t\<rparr>)
                          (update_headers c hdrs t) data (n + 1)" by simp
                  moreover have "get_next_token (mark_token_exhausted (api_key c) (token_manager c))
                      = Some (Inr (Some t), tm, p)" using g nt t by simp
                  ultimately show ?thesis using False by blast
                qed
              qed
            qed
          qed
        qed
      qed
    qed
  qed
qed


lemma make_request_terminates_usable:
  assumes "distinct (map token (tokens (token_manager c)))"
    and "api_key c = Some key"
    and "i < length (tokens (token_manager c))"
    and "token (tokens (token_manager c) ! i) = key"
    and "\<not> is_exhausted (tokens (token_manager c) ! i)"
    and "usable (token_manager c) = f"
  shows "\<exists>chunks how c' hdrs' k.
           make_request server loads c hdrs data n = Some (chunks, how, c', hdrs', k) \<and> k \<le> n + f"
  using assms
proof (induction f arbitrary: c key i hdrs n)
  case 0
  have "tokens (token_manager c) ! i \<in> set (filter (\<lambda>e. \<not> is_exhausted e) (tokens (token_manager c)))"
    using 0(3,5) by simp
  then have "filter (\<lambda>e. \<not> is_exhausted e) (tokens (token_manager c)) \<noteq> []"
    by (metis empty_iff empty_set)
  with 0(6) show ?case by (simp add: usable_def)
next
  case (Suc f)
  let ?m = "mark_token_exhausted (api_key c) (token_manager c)"
  from make_request_step[of server loads c hdrs data n] show ?case
  proof
    assume "\<exists>chunks how c' hdrs'.
       make_request server loads c hdrs data n = Some (chunks, how, c', hdrs', n + 1)"
    then obtain chunks how c' hdrs' where
      "make_request server loads c hdrs data n = Some (chunks, how, c', hdrs', n + 1)" by blast
    moreover have "n + 1 \<le> n + Suc f" by simp
    ultimately show ?thesis by blast
  next
    assume "\<exists>t tm p.
        get_next_token ?m = Some (Inr (Some t), tm, p)
        \<and> t \<noteq> []
        \<and> make_request server loads c hdrs data n =
            make_request server loads (c\<lparr>token_manager := tm, api_key := Some t\<rparr>)
              (update_headers c hdrs t) data (n + 1)"
    then obtain t tm p where g: "get_next_token ?m = Some (Inr (Some t), tm, p)"
      and eq: "make_request server loads c hdrs data n =
            make_request server loads (c\<lparr>token_manager := tm, api_key := Some t\<rparr>)
              (update_headers c hdrs t) data (n + 1)"
      by blast
    from get_next_token_total[of ?m] g
    obtain j where tm: "tokens tm = tokens ?m" and j: "j < length (tokens ?m)"
      "token (tokens ?m ! j) = t" "\<not> is_exhausted (tokens ?m ! j)"
      by auto
    note mk = mark_token_exhausted_usable[of "api_key c" "token_manager c"]
    have d': "distinct (map token (tokens tm))" using mk Suc.prems(1) tm by simp
    from mk Suc.prems(1)
    have "\<forall>i<length (tokens (token_manager c)).
            Some (token (tokens (token_manager c) ! i)) = api_key c
              \<and> \<not> is_exhausted (tokens (token_manager c) ! i)
            \<longrightarrow> Suc (usable ?m) = usable (token_manager c)"
      by simp
    from this[rule_format, of i] Suc.prems(2,3,4,5)
    have "Suc (usable ?m) = usable (token_manager c)" by simp
    then have "usable ?m = f" using Suc.prems(6) by simp
    then have u: "usable tm = f" using tm by (simp add: usable_def)
    let ?c' = "c\<lparr>token_manager := tm, api_key := Some t\<rparr>"
    have p1: "distinct (map token (tokens (token_manager ?c')))" using d' by simp
    have p2: "api_key ?c' = Some t" by simp
    have p3: "j < length (tokens (token_manager ?c'))" using j(1) tm by simp
    have p4: "token (tokens (token_manager ?c') ! j) = t" using j(2) tm by simp
    have p5: "\<not> is_exhausted (tokens (token_manager ?c') ! j)" using j(3) tm by simp
    have p6: "usable (token_manager ?c') = f" using u by simp
    from Suc.IH[OF p1 p2 p3 p4 p5 p6, of "update_headers c hdrs t" "n + 1"]
    obtain chunks how c'' hdrs' k where
      r: "make_request server loads ?c' (update_headers c hdrs t) data (n + 1)
             = Some (chunks, how, c'', hdrs', k)" and k: "k \<le> (n + 1) + f"
      by blast
    have "make_request server loads c hdrs data n = Some (chunks, how, c'', hdrs', k)"
      using eq r by simp
    moreover have "k \<le> n + Suc f" using k by simp
    ultimately show ?thesis by blast
  qed
qed

lemma make_request_terminates_distinct:
  assumes "distinct (map token (tokens (token_manager c)))"
  shows "\<exists>chunks how c' hdrs' k.
           make_request server loads c hdrs data n = Some (chunks, how, c', hdrs', k)
           \<and> k \<le> n + length (tokens (token_manager c)) + 1"
proof -
  let ?m = "mark_token_exhausted (api_key c) (token_manager c)"
  from make_request_step[of server loads c hdrs data n] show ?thesis
  proof
    assume "\<exists>chunks how c' hdrs'.
       make_request server loads c hdrs data n = Some (chunks, how, c', hdrs', n + 1)"
    then obtain chunks how c' hdrs' where
      "make_request server loads c hdrs data n = Some (chunks, how, c', hdrs', n + 1)" by blast
    moreover have "n + 1 \<le> n + length (tokens (token_manager c)) + 1" by simp
    ultimately show ?thesis by blast
  next
    assume "\<exists>t tm p.
        get_next_token ?m = Some (Inr (Some t), tm, p)
        \<and> t \<noteq> []
        \<and> make_request server loads c hdrs data n =
            make_request server loads (c\<lparr>token_manager := tm, api_key := Some t\<rparr>)
              (update_headers c hdrs t) data (n + 1)"
    then obtain t tm p where g: "get_next_token ?m = Some (Inr (Some t), tm, p)"
      and eq: "make_request server loads c hdrs data n =
            make_request server loads (c\<lparr>token_manager := tm, api_key := Some t\<rparr>)
              (update_headers c hdrs t) data (n + 1)"
      by blast
    from get_next_token_total[of ?m] g
    obtain j where tm: "tokens tm = tokens ?m" and j: "j < length (tokens ?m)"
      "token (tokens ?m ! j) = t" "\<not> is_exhausted (tokens ?m ! j)"
      by auto
    note mk = mark_token_exhausted_usable[of "api_key c" "token_manager c"]
    have d': "distinct (map token (tokens tm))" using mk assms tm by simp
    have "length (map token (tokens tm)) = length (map token (tokens (token_manager c)))"
      using mk tm by simp
    then have len: "length (tokens tm) = length (tokens (token_manager c))"
      by simp
    let ?c' = "c\<lparr>token_manager := tm, api_key := Some t\<rparr>"
    have p1: "distinct (map token (tokens (token_manager ?c')))" using d' by simp
    have p2: "api_key ?c' = Some t" by simp
    have p3: "j < length (tokens (token_manager ?c'))" using j(1) tm by simp
    have p4: "token (tokens (token_manager ?c') ! j) = t" using j(2) tm by simp
    have p5: "\<not> is_exhausted (tokens (token_manager ?c') ! j)" using j(3) tm by simp
    have p6: "usable (token_manager ?c') = usable tm" by simp
    from make_request_terminates_usable[OF p1 p2 p3 p4 p5 p6,
        of server loads "update_headers c hdrs t" data "n + 1"]
    obtain chunks how c'' hdrs' k where
      r: "make_request server loads ?c' (update_headers c hdrs t) data (n + 1)
             = Some (chunks, how, c'', hdrs', k)" and k: "k \<le> (n + 1) + usable tm"
      by blast
    have ul: "usable tm \<le> length (tokens (token_manager c))"
      using usable_le_length[of tm] len by simp
    have "make_request server loads c hdrs data n = Some (chunks, how, c'', hdrs', k)"
      using eq r by simp
    moreover have "k \<le> n + length (tokens (token_manager c)) + 1" using k ul by simp
    ultimately show ?thesis by blast
  qed
qed

section \<open>The claims about the token pool\<close>

text \<open>
  Claim C3. In a pool of \<open>N\<close> entries whose cursor is at a position \<open>i < N\<close>,
  \<open>get_next_token\<close> returns the token of the first entry that is not exhausted among
  the positions \<open>i, i + 1, ...\<close> taken modulo \<open>N\<close>, after reading \<open>k + 1\<close> entries
  when that entry is \<open>k\<close> steps away, and leaves the cursor on it. When every entry is
  exhausted it returns \<open>None\<close> after reading exactly \<open>N\<close> entries, with the manager as it
  was; this covers the empty pool, where nothing is read.
\<close>

theorem get_next_token_scan:
  assumes "tokens m = [] \<or> current_token_index m < length (tokens m)"
  shows "(\<forall>k<length (tokens m).
            \<not> is_exhausted (tokens m ! ((current_token_index m + k) mod length (tokens m))) \<and>
            (\<forall>j<k. is_exhausted (tokens m ! ((current_token_index m + j) mod length (tokens m))))
            \<longrightarrow> get_next_token m =
              Some (Inr (Some (token (tokens m ! ((current_token_index m + k) mod length (tokens m))))),
                    m\<lparr>current_token_index := (current_token_index m + k) mod length (tokens m)\<rparr>, k + 1))
       \<and> ((\<forall>e\<in>set (tokens m). is_exhausted e)
            \<longrightarrow> get_next_token m = Some (Inr None, m, length (tokens m)))"
proof (cases "tokens m = []")
  case True
  then show ?thesis by (simp add: get_next_token_def)
next
  case False
  let ?N = "length (tokens m)"
  let ?c = "current_token_index m"
  have c: "?c < ?N" using assms False by simp
  have c0: "?c = (?c + 0) mod ?N" using c by simp
  have found: "get_next_token m =
              Some (Inr (Some (token (tokens m ! ((?c + k) mod ?N)))),
                    m\<lparr>current_token_index := (?c + k) mod ?N\<rparr>, k + 1)"
    if k: "k < ?N" "\<not> is_exhausted (tokens m ! ((?c + k) mod ?N))"
      "\<forall>j<k. is_exhausted (tokens m ! ((?c + j) mod ?N))" for k
  proof -
    have "get_next_token_loop ?c m 0 =
            Some (Inr (Some (token (tokens m ! ((?c + k) mod ?N)))),
                  m\<lparr>current_token_index := (?c + k) mod ?N\<rparr>, 0 + (k - 0) + 1)"
      using c c0 k by (intro loop_found) auto
    then show ?thesis using False by (simp add: get_next_token_def)
  qed
  have none: "get_next_token m = Some (Inr None, m, ?N)"
    if all: "\<forall>e\<in>set (tokens m). is_exhausted e"
  proof -
    have "0 < ?N" using c by (rule index_pos)
    then have "\<forall>l. (?c + l) mod ?N < ?N" by simp
    then have "\<forall>l. 0 \<le> l \<and> l < ?N \<longrightarrow> is_exhausted (tokens m ! ((?c + l) mod ?N))"
      using all nth_mem by blast
    then have "get_next_token_loop ?c m 0 = Some (Inr None, m\<lparr>current_token_index := ?c\<rparr>, 0 + (?N - 0))"
      using c c0 by (intro loop_none) auto
    then show ?thesis using False by (simp add: get_next_token_def)
  qed
  show ?thesis using found none by blast
qed

text \<open>
  The theorem at a pool of three entries with the cursor on the second: the scan wraps
  around to the first entry after three reads; and at a pool of two exhausted entries.
\<close>

theorem get_next_token_scan_witness:
  "(tokens pool_abc = [] \<or> current_token_index pool_abc < 3)
   \<and> get_next_token pool_abc = Some (Inr (Some ''a''), pool_abc\<lparr>current_token_index := 0\<rparr>, 3)
   \<and> get_next_token pool_spent = Some (Inr None, pool_spent, 2)"
  using get_next_token_scan [of pool_abc, THEN conjunct1, rule_format, of 2]
    get_next_token_scan [of pool_spent, THEN conjunct2]
  by (simp add: is_exhausted_def less_2_cases_iff)

text \<open>
  Claim C2, as stated, fails: \<open>get_next_token\<close> assigns \<open>current_token_index\<close> each time
  it steps over an exhausted entry, so a successful call behind an exhausted entry moves
  the cursor. Here the cursor starts at 1 and the call returns \<open>''a''\<close> with the cursor at 0.
\<close>

theorem get_next_token_moves_cursor:
  "get_next_token pool_abc = Some (Inr (Some ''a''), pool_abc\<lparr>current_token_index := 0\<rparr>, 3)
   \<and> current_token_index (pool_abc\<lparr>current_token_index := 0\<rparr>) \<noteq> current_token_index pool_abc"
  by (simp add: get_next_token_def get_next_token_loop.simps is_exhausted_def)

text \<open>
  Claim C2, amended. A call of \<open>get_next_token\<close> that returns a token changes nothing but
  the cursor, and leaves the cursor on the entry whose token it returned, which is not
  exhausted. The cursor is where it was exactly when the entry under the old cursor was
  not exhausted; so the cursor is advanced by \<open>get_next_token\<close> as well as by
  \<open>mark_token_exhausted\<close>.
\<close>

theorem get_next_token_success_cursor:
  assumes "get_next_token m = Some (Inr (Some t), m', p)"
  shows "tokens m' = tokens m \<and> token_file m' = token_file m
       \<and> current_token_index m' < length (tokens m)
       \<and> \<not> is_exhausted (tokens m ! current_token_index m')
       \<and> t = token (tokens m ! current_token_index m')
       \<and> (current_token_index m' = current_token_index m
            \<longleftrightarrow> \<not> is_exhausted (tokens m ! current_token_index m))"
proof -
  let ?N = "length (tokens m)"
  let ?c = "current_token_index m"
  have ne: "tokens m \<noteq> []" using assms by (auto simp: get_next_token_def)
  have c: "?c < ?N"
  proof (rule ccontr)
    assume "\<not> ?c < ?N"
    then have "get_next_token m = Some (Inl IndexError, m, 0)"
      using ne by (intro get_next_token_out_of_range) auto
    with assms show False by simp
  qed
  from get_next_token_cases[OF c] assms
  obtain k where k: "k < ?N" "\<not> is_exhausted (tokens m ! ((?c + k) mod ?N))"
      "\<forall>j<k. is_exhausted (tokens m ! ((?c + j) mod ?N))"
      "get_next_token m =
              Some (Inr (Some (token (tokens m ! ((?c + k) mod ?N)))),
                    m\<lparr>current_token_index := (?c + k) mod ?N\<rparr>, k + 1)"
    by auto
  from k(4) assms have m': "m' = m\<lparr>current_token_index := (?c + k) mod ?N\<rparr>"
    and t: "t = token (tokens m ! ((?c + k) mod ?N))" by simp_all
  have Npos: "0 < ?N" using c by (rule index_pos)
  have same: "((?c + k) mod ?N = ?c) = (\<not> is_exhausted (tokens m ! ?c))"
  proof (cases "k = 0")
    case True
    with k(2) c show ?thesis by simp
  next
    case False
    then have "(?c + k) mod ?N \<noteq> ?c" using mod_offset_ne[of ?c ?N k] c k(1) by simp
    moreover have "is_exhausted (tokens m ! ?c)" using k(3) False c by force
    ultimately show ?thesis by simp
  qed
  show ?thesis using m' t k(2) Npos same by simp
qed

theorem get_next_token_success_cursor_witness:
  "get_next_token pool_skip = Some (Inr (Some ''y''), pool_skip\<lparr>current_token_index := 1\<rparr>, 2)
   \<and> tokens (pool_skip\<lparr>current_token_index := 1\<rparr>) = tokens pool_skip
   \<and> current_token_index (pool_skip\<lparr>current_token_index := 1\<rparr>) \<noteq> current_token_index pool_skip
   \<and> is_exhausted (tokens pool_skip ! current_token_index pool_skip)"
proof -
  have h: "get_next_token pool_skip = Some (Inr (Some ''y''), pool_skip\<lparr>current_token_index := 1\<rparr>, 2)"
    by (simp add: get_next_token_def get_next_token_loop.simps is_exhausted_def)
  show ?thesis using h get_next_token_success_cursor[OF h] by simp
qed

text \<open>
  Claim C5. When \<open>k\<close> is the first position whose token equals \<open>t\<close>,
  \<open>mark_token_exhausted t\<close> returns the manager with the \<open>exhausted\<close> field of entry \<open>k\<close>
  set to \<open>True\<close> and the cursor at \<open>(k + 1) mod N\<close>, and with nothing else changed: the
  other entries, the token of entry \<open>k\<close> and the file name are as before. When no entry
  has the token \<open>t\<close> the manager is returned unchanged.
\<close>

theorem mark_token_exhausted_first_match:
  "(\<forall>k<length (tokens m).
      Some (token (tokens m ! k)) = t \<and> (\<forall>j<k. Some (token (tokens m ! j)) \<noteq> t)
      \<longrightarrow> mark_token_exhausted t m =
            m\<lparr>tokens := (tokens m)[k := (tokens m ! k)\<lparr>exhausted := Some True\<rparr>],
              current_token_index := (k + 1) mod length (tokens m)\<rparr>)
   \<and> ((\<forall>e\<in>set (tokens m). Some (token e) \<noteq> t) \<longrightarrow> mark_token_exhausted t m = m)"
proof (intro conjI allI impI)
  fix k assume "k < length (tokens m)"
    and "Some (token (tokens m ! k)) = t \<and> (\<forall>j<k. Some (token (tokens m ! j)) \<noteq> t)"
  then show "mark_token_exhausted t m =
            m\<lparr>tokens := (tokens m)[k := (tokens m ! k)\<lparr>exhausted := Some True\<rparr>],
              current_token_index := (k + 1) mod length (tokens m)\<rparr>"
    unfolding mark_token_exhausted_def by (intro mark_loop_found) auto
next
  assume "\<forall>e\<in>set (tokens m). Some (token e) \<noteq> t"
  then have "\<forall>j. 0 \<le> j \<and> j < length (tokens m) \<longrightarrow> Some (token (tokens m ! j)) \<noteq> t"
    using nth_mem by blast
  then show "mark_token_exhausted t m = m"
    unfolding mark_token_exhausted_def by (rule mark_loop_none)
qed

text \<open>
  The theorem at a pool where the token \<open>b\<close> occurs twice (the first occurrence is
  marked and the cursor is put behind it), and at a token the pool does not hold.
\<close>

theorem mark_token_exhausted_first_match_witness:
  "mark_token_exhausted (Some ''b'') pool_dup =
     \<lparr>token_file = ''tokens.json'',
      tokens = [\<lparr>token = ''a'', exhausted = None\<rparr>,
                \<lparr>token = ''b'', exhausted = Some True\<rparr>,
                \<lparr>token = ''b'', exhausted = Some False\<rparr>],
      current_token_index = 2\<rparr>
   \<and> mark_token_exhausted (Some ''z'') pool_dup = pool_dup"
  using mark_token_exhausted_first_match [of pool_dup "Some ''b''", THEN conjunct1, rule_format, of 1]
    mark_token_exhausted_first_match [of pool_dup "Some ''z''", THEN conjunct2]
  by simp

text \<open>
  Claim C7, as stated, fails for a non-empty pool whose cursor lies outside it. Such a
  state is reached through the public operations: a pool of two tokens has its first
  token marked (cursor 1) and is reloaded from a file that holds one token. The
  reset leaves the cursor at 1, and \<open>get_next_token\<close> then reads \<open>self.tokens[1]\<close> of a
  list of length one and raises \<open>IndexError\<close> instead of returning a token.
\<close>

theorem reset_then_next_raises:
  "run [MarkExhausted (Some ''t1''), Load one_token, ResetAll]
       (TokenManager_init two_tokens ''tokens.json'')
     = Some (Inr \<lparr>token_file = ''tokens.json'',
                  tokens = [\<lparr>token = ''t3'', exhausted = Some False\<rparr>],
                  current_token_index = 1\<rparr>)
   \<and> tokens \<lparr>token_file = ''tokens.json'',
               tokens = [\<lparr>token = ''t3'', exhausted = None\<rparr>],
               current_token_index = 1\<rparr> \<noteq> []
   \<and> get_next_token (reset_exhausted_status
         \<lparr>token_file = ''tokens.json'',
          tokens = [\<lparr>token = ''t3'', exhausted = None\<rparr>],
          current_token_index = 1\<rparr>)
     = Some (Inl IndexError,
             \<lparr>token_file = ''tokens.json'',
              tokens = [\<lparr>token = ''t3'', exhausted = Some False\<rparr>],
              current_token_index = 1\<rparr>, 0)
   \<and> run [MarkExhausted (Some ''t1''), Load one_token, ResetAll, Next]
       (TokenManager_init two_tokens ''tokens.json'')
     = Some (Inl IndexError)"
  by (simp add: TokenManager_init_def load_tokens_def mark_token_exhausted_def
      mark_token_exhausted_loop.simps reset_exhausted_status_def get_next_token_def
      get_next_token_loop.simps)

text \<open>
  Claim C7, amended. \<open>reset_exhausted_status\<close> keeps the cursor, the file name and every
  token, and sets every \<open>exhausted\<close> field to \<open>False\<close>. Hence in a non-empty pool whose
  cursor is a position of the pool, whatever the flags were, \<open>get_next_token\<close> after the
  reset returns a token: that of the entry under the cursor, after reading one entry.
\<close>

theorem reset_then_next:
  "current_token_index (reset_exhausted_status m) = current_token_index m
   \<and> token_file (reset_exhausted_status m) = token_file m
   \<and> map token (tokens (reset_exhausted_status m)) = map token (tokens m)
   \<and> (\<forall>e\<in>set (tokens (reset_exhausted_status m)). exhausted e = Some False)
   \<and> (tokens m \<noteq> [] \<and> current_token_index m < length (tokens m)
        \<longrightarrow> get_next_token (reset_exhausted_status m) =
              Some (Inr (Some (token (tokens m ! current_token_index m))), reset_exhausted_status m, 1))"
proof -
  have "get_next_token (reset_exhausted_status m) =
              Some (Inr (Some (token (tokens m ! current_token_index m))), reset_exhausted_status m, 1)"
    if "tokens m \<noteq> []" "current_token_index m < length (tokens m)"
    using that
    by (simp add: get_next_token_def reset_exhausted_status_def get_next_token_loop.simps is_exhausted_def)
  then show ?thesis by (auto simp: reset_exhausted_status_def)
qed

text \<open>The theorem at a pool whose two entries were both exhausted.\<close>

theorem reset_then_next_witness:
  "(tokens pool_spent \<noteq> [] \<and> current_token_index pool_spent < length (tokens pool_spent))
   \<and> get_next_token (reset_exhausted_status pool_spent) =
       Some (Inr (Some ''c''),
             \<lparr>token_file = ''tokens.json'',
              tokens = [\<lparr>token = ''b'', exhausted = Some False\<rparr>,
                        \<lparr>token = ''c'', exhausted = Some False\<rparr>],
              current_token_index = 1\<rparr>, 1)"
  using reset_then_next [of pool_spent]
  by (simp add: reset_exhausted_status_def)

text \<open>
  Claim C9, as stated, fails: \<open>load_tokens\<close> replaces the list and keeps the cursor, so a
  reload that returns a shorter list leaves the cursor outside the pool, and the next
  \<open>get_next_token\<close> raises \<open>IndexError\<close>. Here the pool of two tokens has its first
  token marked (cursor 1) and is then reloaded from a file that holds one token.
\<close>

theorem cursor_leaves_pool_on_reload:
  "run [MarkExhausted (Some ''t1''), Load one_token] (TokenManager_init two_tokens ''tokens.json'')
     = Some (Inr \<lparr>token_file = ''tokens.json'', tokens = [\<lparr>token = ''t3'', exhausted = None\<rparr>],
                  current_token_index = 1\<rparr>)
   \<and> run [MarkExhausted (Some ''t1''), Load one_token, Next] (TokenManager_init two_tokens ''tokens.json'')
     = Some (Inl IndexError)"
  by (simp add: TokenManager_init_def load_tokens_def mark_token_exhausted_def
      mark_token_exhausted_loop.simps get_next_token_def get_next_token_loop.simps)

text \<open>
  Claim C9, amended. From a freshly constructed manager, along every sequence of
  \<open>load_tokens\<close>, \<open>get_next_token\<close>, \<open>mark_token_exhausted\<close> and
  \<open>reset_exhausted_status\<close> in which each reload yields an empty list or a list longer
  than the cursor's position at that moment, no call raises, and afterwards the cursor
  is below the pool length whenever the pool is not empty. On an empty pool
  \<open>get_next_token\<close> returns \<open>None\<close> without reading an entry.
\<close>

theorem cursor_stays_in_pool:
  assumes "reloads_fit xs (TokenManager_init fs path)"
  shows "(\<exists>m'. run xs (TokenManager_init fs path) = Some (Inr m')
            \<and> (tokens m' \<noteq> [] \<longrightarrow> current_token_index m' < length (tokens m')))
       \<and> (tokens m = [] \<longrightarrow> get_next_token m = Some (Inr None, m, 0))"
  using run_keeps_cursor_in_pool[OF init_cursor_in_pool assms]
  by (auto simp: cursor_in_pool_def get_next_token_def)

theorem cursor_stays_in_pool_witness:
  "reloads_fit [Next, MarkExhausted (Some ''t1''), Load two_tokens, ResetAll, Next]
     (TokenManager_init two_tokens ''tokens.json'')
   \<and> run [Next, MarkExhausted (Some ''t1''), Load two_tokens, ResetAll, Next]
        (TokenManager_init two_tokens ''tokens.json'')
      = Some (Inr \<lparr>token_file = ''tokens.json'',
                   tokens = [\<lparr>token = ''t1'', exhausted = Some False\<rparr>, \<lparr>token = ''t2'', exhausted = Some False\<rparr>],
                   current_token_index = 1\<rparr>)"
proof -
  have h: "reloads_fit [Next, MarkExhausted (Some ''t1''), Load two_tokens, ResetAll, Next]
     (TokenManager_init two_tokens ''tokens.json'')"
    by (simp add: TokenManager_init_def load_tokens_def mark_token_exhausted_def cursor_in_pool_def
      mark_token_exhausted_loop.simps get_next_token_def get_next_token_loop.simps
      reset_exhausted_status_def is_exhausted_def)
  show ?thesis
    using h cursor_stays_in_pool[OF h]
    by (simp add: TokenManager_init_def load_tokens_def mark_token_exhausted_def cursor_in_pool_def
      mark_token_exhausted_loop.simps get_next_token_def get_next_token_loop.simps
      reset_exhausted_status_def is_exhausted_def)
qed

section \<open>The claims about stream decoding\<close>

text \<open>
  Claim C6. Let a line start with \<open>data: \<close> and have the payload \<open>[DONE]\<close> (up to
  surrounding white space). Whatever lines stand before and after it in the chunk, the
  line loop yields exactly the pairs of the lines before it and does not run on: it
  returns, unless a line before it already raised. Hence the chunk that holds the line
  ends the whole output with those pairs, whatever chunks follow.
\<close>

theorem sentinel_ends_stream:
  assumes "take 6 line = ''data: ''"
    and "strip (drop 6 line) = ''[DONE]''"
  shows "fst (decode_lines prov loads (before @ line # after)) = fst (decode_lines prov loads before)
       \<and> snd (decode_lines prov loads (before @ line # after)) =
           (case snd (decode_lines prov loads before) of Continue \<Rightarrow> Return | e \<Rightarrow> e)
       \<and> (split_lines chunk_str = before @ line # after \<longrightarrow>
            decode_chunks prov loads (Text chunk_str # cs) =
              (fst (decode_lines prov loads before),
               case snd (decode_lines prov loads before) of Raises e \<Rightarrow> Raised e | _ \<Rightarrow> Sentinel))"
proof -
  have stop: "decode_line prov loads line = Stop"
    using assms by (simp add: decode_line_def)
  note lines = decode_lines_stop[OF stop, of before after]
  have "decode_chunks prov loads (Text chunk_str # cs) =
              (fst (decode_lines prov loads before),
               case snd (decode_lines prov loads before) of Raises e \<Rightarrow> Raised e | _ \<Rightarrow> Sentinel)"
    if s: "split_lines chunk_str = before @ line # after"
  proof -
    have "strip chunk_str \<noteq> []"
      using data_line_not_blank[OF assms(1), of chunk_str] s by simp
    then show ?thesis
      using lines s by (simp add: after_lines_def split: line_end.splits)
  qed
  with lines show ?thesis by blast
qed

text \<open>
  The theorem at a chunk of three lines with the sentinel in the middle, followed by
  another chunk: one pair is yielded, from the line before the sentinel.
\<close>

theorem sentinel_ends_stream_witness:
  "take 6 line_done = ''data: '' \<and> strip (drop 6 line_done) = ''[DONE]''
   \<and> decode_chunks ''anthropic'' sample_loads
         [Text (line_hi @ [CHR 0x0A] @ line_done @ [CHR 0x0A] @ line_hi), Text line_hi]
       = ([(''answer'', JStr ''Hi'')], Sentinel)"
proof -
  have h1: "take 6 line_done = ''data: ''" by simp
  have h2: "strip (drop 6 line_done) = ''[DONE]''" by (simp add: strip_def is_space_def)
  have s: "split_lines (line_hi @ [CHR 0x0A] @ line_done @ [CHR 0x0A] @ line_hi)
             = [line_hi] @ line_done # [line_hi]" by simp
  have b: "decode_lines ''anthropic'' sample_loads [line_hi] = ([(''answer'', JStr ''Hi'')], Continue)"
    by (simp add: decode_line_def strip_def is_space_def emit_content_def bind_err_def)
  from sentinel_ends_stream [OF h1 h2, of "''anthropic''" sample_loads "[line_hi]" "[line_hi]"
      "line_hi @ [CHR 0x0A] @ line_done @ [CHR 0x0A] @ line_hi" "[Text line_hi]"]
  have "decode_chunks ''anthropic'' sample_loads
         [Text (line_hi @ [CHR 0x0A] @ line_done @ [CHR 0x0A] @ line_hi), Text line_hi]
       = ([(''answer'', JStr ''Hi'')], Sentinel)"
    unfolding b using s by simp
  with h1 h2 show ?thesis by blast
qed

text \<open>
  Claim C8. Let a line start with \<open>data: \<close>, let its payload not be the sentinel (so
  that the parser is reached), and let the parser reject the payload. Then the line
  yields nothing and does not stop the loop: a chunk with the line among its lines is
  decoded exactly as the same lines without it, and the chunks behind it are decoded as
  before.
\<close>

theorem malformed_line_skipped:
  assumes "take 6 line = ''data: ''"
    and "strip (drop 6 line) \<noteq> ''[DONE]''"
    and "loads (drop 6 line) = None"
  shows "decode_lines prov loads (before @ line # after) = decode_lines prov loads (before @ after)
       \<and> (split_lines chunk_str = before @ line # after \<longrightarrow>
            decode_chunks prov loads (Text chunk_str # cs) =
              after_lines (decode_lines prov loads (before @ after)) (decode_chunks prov loads cs))"
proof -
  have skip: "decode_line prov loads line = Skip"
    using assms by (simp add: decode_line_def)
  have "strip chunk_str \<noteq> []" if "split_lines chunk_str = before @ line # after"
    using data_line_not_blank[OF assms(1), of chunk_str] that by simp
  then show ?thesis using decode_lines_skip[OF skip] by simp
qed

text \<open>
  The theorem at the chunk of the spec's example, \<open>data: {not json\<close> between two valid
  lines, followed by one more chunk: all three valid lines yield their pair.
\<close>

theorem malformed_line_skipped_witness:
  "take 6 line_bad = ''data: '' \<and> strip (drop 6 line_bad) \<noteq> ''[DONE]''
   \<and> sample_loads (drop 6 line_bad) = None
   \<and> decode_chunks ''anthropic'' sample_loads
         [Text (line_hi @ [CHR 0x0A] @ line_bad @ [CHR 0x0A] @ line_hi), Text line_hi]
       = ([(''answer'', JStr ''Hi''), (''answer'', JStr ''Hi''), (''answer'', JStr ''Hi'')], Exhausted)"
proof -
  have h1: "take 6 line_bad = ''data: ''" by simp
  have h2: "strip (drop 6 line_bad) \<noteq> ''[DONE]''" by (simp add: strip_def is_space_def)
  have h3: "sample_loads (drop 6 line_bad) = None" by simp
  have s: "split_lines (line_hi @ [CHR 0x0A] @ line_bad @ [CHR 0x0A] @ line_hi)
             = [line_hi] @ line_bad # [line_hi]" by simp
  have b: "decode_lines ''anthropic'' sample_loads ([line_hi] @ [line_hi])
             = ([(''answer'', JStr ''Hi''), (''answer'', JStr ''Hi'')], Continue)"
    by (simp add: decode_line_def strip_def is_space_def emit_content_def bind_err_def)
  have c: "decode_chunks ''anthropic'' sample_loads [Text line_hi] = ([(''answer'', JStr ''Hi'')], Exhausted)"
    by (simp add: decode_line_def strip_def is_space_def emit_content_def bind_err_def after_lines_def)
  from malformed_line_skipped [where line = line_bad and loads = sample_loads
      and prov = "''anthropic''" and before = "[line_hi]" and after = "[line_hi]"
      and chunk_str = "line_hi @ [CHR 0x0A] @ line_bad @ [CHR 0x0A] @ line_hi"
      and cs = "[Text line_hi]", OF h1 h2 h3]
  have "decode_chunks ''anthropic'' sample_loads
         [Text (line_hi @ [CHR 0x0A] @ line_bad @ [CHR 0x0A] @ line_hi), Text line_hi]
       = ([(''answer'', JStr ''Hi''), (''answer'', JStr ''Hi''), (''answer'', JStr ''Hi'')], Exhausted)"
    unfolding b c using s by (simp add: after_lines_def)
  with h1 h2 h3 show ?thesis by blast
qed

section \<open>The claims about the client\<close>

text \<open>
  Claim C1 says that construction fails exactly when there is neither an explicit key
  nor a pool token. The constructor's guard is \<open>not initial_token and api_key\<close>: with an
  unreadable token file it raises \<open>ValueError\<close> when an explicit key is supplied, and
  with no key at all it raises nothing and builds a client whose key is \<open>None\<close>.
\<close>

theorem init_guard_inverted:
  "ClaudeClient_init (\<lambda>path. None) (Some ''sk-key'') ''tokens.json''
       ''https://api.anthropic.com/v1/messages'' ''anthropic''
     = Some (Inl ValueError)
   \<and> ClaudeClient_init (\<lambda>path. None) None ''tokens.json''
       ''https://api.anthropic.com/v1/messages'' ''anthropic''
     = Some (Inr \<lparr>token_manager = \<lparr>token_file = ''tokens.json'', tokens = [], current_token_index = 0\<rparr>,
                  api_key = None,
                  api_url = ''https://api.anthropic.com/v1/messages'',
                  provider = ''anthropic''\<rparr>)"
  by (simp add: ClaudeClient_init_def TokenManager_init_def load_tokens_def get_next_token_def
      truthy_str_def BaseClient_init_def)



text \<open>
  Claim C10 says that the retry loop always terminates. It does not when the token
  file holds the same token twice: \<open>mark_token_exhausted\<close> marks the first entry with that
  token, \<open>get_next_token\<close> returns the token again from the second entry, and against
  a server that answers every request with the quota error the loop never stops. The
  client is the one the constructor builds from such a file.
\<close>

theorem retry_loop_diverges:
  "ClaudeClient_init (\<lambda>path. Some pool_t_t) None ''tokens.json'' anthropic_url ''anthropic''
     = Some (Inr (client_of pool_t_t 0 ''t''))
   \<and> build_request (client_of pool_t_t 0 ''t'') (JArr []) ''claude-3-5-sonnet-20241022''
     = Inr (anthropic_headers ''t'', anthropic_body)
   \<and> make_request quota_server sample_loads (client_of pool_t_t 0 ''t'')
        (anthropic_headers ''t'') anthropic_body 0 = None
   \<and> stream_chat quota_server sample_loads (client_of pool_t_t 0 ''t'') (JArr [])
        ''claude-3-5-sonnet-20241022'' = None"
proof -
  have init: "ClaudeClient_init (\<lambda>path. Some pool_t_t) None ''tokens.json'' anthropic_url ''anthropic''
     = Some (Inr (client_of pool_t_t 0 ''t''))"
    by (simp add: ClaudeClient_init_def TokenManager_init_def load_tokens_def get_next_token_def
        get_next_token_loop.simps is_exhausted_def truthy_str_def BaseClient_init_def)
  have build: "build_request (client_of pool_t_t 0 ''t'') (JArr []) ''claude-3-5-sonnet-20241022''
     = Inr (anthropic_headers ''t'', anthropic_body)"
    by (simp add: build_request_def)
  have loop: "make_request quota_server sample_loads (client_of pool_t_t 0 ''t'')
        (anthropic_headers ''t'') anthropic_body 0 = None"
  proof (cases "make_request quota_server sample_loads (client_of pool_t_t 0 ''t'')
        (anthropic_headers ''t'') anthropic_body 0")
    case None
    then show ?thesis .
  next
    case (Some y)
    from stuck_never_returns[OF this] show ?thesis by simp
  qed
  have "stream_chat quota_server sample_loads (client_of pool_t_t 0 ''t'') (JArr [])
        ''claude-3-5-sonnet-20241022'' = None"
    unfolding stream_chat_def build using loop by simp
  with init build loop show ?thesis by blast
qed

end
